theory Spec2Isabelle
  imports Main "HOL-Library.Multiset"
begin

section \<open>The FCFS scheduler of \<^verbatim>\<open>src/app/projects/fcfs/page.tsx\<close>\<close>

text \<open>
  The function \<^verbatim>\<open>fcfs\<close> (lines 73 to 139) sorts a copy of its input, walks the sorted
  array once with a clock, writes one label per time unit into an array, compresses that
  array into blocks and derives the axis markers. Numbers are modelled as \<open>int\<close>: the
  page passes \<^verbatim>\<open>parseInt\<close> of strings of digits, and the function itself only adds,
  subtracts and compares them.
\<close>

subsection \<open>Data model\<close>

text \<open>\<^verbatim>\<open>{ pid: string; arrival: number; burst: number }\<close>, the parameter type of \<^verbatim>\<open>fcfs\<close>.\<close>

record Process =
  pid :: string
  arrival :: int
  burst :: int

text \<open>\<^verbatim>\<open>interface ProcessResult\<close>; the optional field \<^verbatim>\<open>remaining\<close> is never set by \<^verbatim>\<open>fcfs\<close>.\<close>

record ProcessResult = Process +
  completion :: int
  waiting :: int
  turnaround :: int

text \<open>
  \<^verbatim>\<open>interface GanttBlock\<close>. The type \<^verbatim>\<open>string | "IDLE"\<close> of the label is the type of
  strings: the idle marker is the string \<^verbatim>\<open>"IDLE"\<close>. The field \<^verbatim>\<open>end\<close> is called
  \<open>endTime\<close> here.
\<close>

record GanttBlock =
  process :: string
  start :: int
  endTime :: int

text \<open>The object returned by \<^verbatim>\<open>fcfs\<close> (lines 133 to 138).\<close>

record FcfsOutput =
  ganttBlocks :: "GanttBlock list"
  timeMarkers :: "int list"
  totalTime :: int
  results :: "ProcessResult list"

subsection \<open>Sorting (lines 75 to 77)\<close>

text \<open>
  The comparator \<^verbatim>\<open>(a, b) => a.arrival - b.arrival || a.pid.localeCompare(b.pid)\<close>.
  \<^verbatim>\<open>String.prototype.localeCompare\<close> is the collation of the JavaScript engine and its
  locale; it is not part of the repository and is taken as the parameter
  \<open>localeCompare\<close>. \<^verbatim>\<open>x || y\<close> is \<open>x\<close> when \<open>x\<close> is not zero and \<open>y\<close> otherwise.
\<close>

definition compareFn :: "(string \<Rightarrow> string \<Rightarrow> int) \<Rightarrow> ('m Process_scheme) \<Rightarrow> ('m Process_scheme) \<Rightarrow> int" where
  "compareFn localeCompare a b =
     (if arrival a - arrival b \<noteq> 0 then arrival a - arrival b
      else localeCompare (pid a) (pid b))"

text \<open>
  \<^verbatim>\<open>Array.prototype.sort\<close> with a comparator. The language requires the sort to be stable
  and, for a consistent comparator, to return the elements in the order of the
  comparator; the result is then determined, and insertion from the right computes it:
  an element goes in front of the first element it does not compare greater than.
\<close>

fun insert_sorted :: "('a \<Rightarrow> 'a \<Rightarrow> int) \<Rightarrow> 'a \<Rightarrow> 'a list \<Rightarrow> 'a list" where
  "insert_sorted c x [] = [x]"
| "insert_sorted c x (y # ys) =
     (if c x y \<le> 0 then x # y # ys else y # insert_sorted c x ys)"

definition array_sort :: "('a \<Rightarrow> 'a \<Rightarrow> int) \<Rightarrow> 'a list \<Rightarrow> 'a list" where
  "array_sort c xs = foldr (insert_sorted c) xs []"

subsection \<open>The simulation loop (lines 79 to 110)\<close>

text \<open>
  The variables the loop updates: \<^verbatim>\<open>time\<close>, \<^verbatim>\<open>done\<close> (here \<open>done_list\<close>) and
  \<^verbatim>\<open>uncompressedTimeline\<close>.
\<close>

record sim_state =
  time :: int
  done_list :: "ProcessResult list"
  uncompressedTimeline :: "string list"

text \<open>
  One iteration for the process \<open>current\<close>. A loop
  \<^verbatim>\<open>for (let i = 0; i < n; i++) a.push(v)\<close> appends \<open>replicate (nat n) v\<close>: nothing
  when \<open>n \<le> 0\<close>.
\<close>

definition loop_body :: "sim_state \<Rightarrow> Process \<Rightarrow> sim_state" where
  "loop_body s current =
     (let idle = (if arrival current > time s
                  then replicate (nat (arrival current - time s)) ''IDLE'' else []);
          startTime = (if arrival current > time s then arrival current else time s);
          completionTime = startTime + burst current
      in \<lparr>time = completionTime,
          done_list = done_list s @
            [\<lparr>pid = pid current, arrival = arrival current, burst = burst current,
              completion = completionTime,
              waiting = completionTime - arrival current - burst current,
              turnaround = completionTime - arrival current\<rparr>],
          uncompressedTimeline = uncompressedTimeline s @ idle @
            replicate (nat (burst current)) (pid current)\<rparr>)"

definition simulate :: "Process list \<Rightarrow> sim_state" where
  "simulate procs =
     foldl loop_body \<lparr>time = 0, done_list = [], uncompressedTimeline = []\<rparr> procs"

subsection \<open>Compression into blocks (lines 113 to 127)\<close>

text \<open>
  The loop over the index \<open>t\<close> of \<^verbatim>\<open>uncompressedTimeline\<close>, with the variables
  \<^verbatim>\<open>blockStart\<close> and \<^verbatim>\<open>ganttBlocks\<close> it updates. The unit at \<open>t + 1\<close> is read only
  when \<open>t\<close> is not the last index, as \<^verbatim>\<open>||\<close> evaluates its right side only then. The
  loop ends because \<open>t\<close> grows up to the length.
\<close>

function compress_loop :: "string list \<Rightarrow> nat \<Rightarrow> int \<Rightarrow> GanttBlock list \<Rightarrow> GanttBlock list" where
  "compress_loop timeline t blockStart blocks =
     (if t < length timeline
      then (if t = length timeline - 1 \<or> timeline ! (t + 1) \<noteq> timeline ! t
            then compress_loop timeline (t + 1) (int t + 1)
                   (blocks @ [\<lparr>process = timeline ! t, start = blockStart, endTime = int t + 1\<rparr>])
            else compress_loop timeline (t + 1) blockStart blocks)
      else blocks)"
  by pat_completeness auto
termination
  by (relation "measure (\<lambda>(timeline, t, blockStart, blocks). length timeline - t)") auto

declare compress_loop.simps [simp del]

subsection \<open>Markers and total time (lines 129 to 131)\<close>

text \<open>
  \<^verbatim>\<open>new Set(xs)\<close> adds the elements of \<open>xs\<close> one by one and keeps the order of first
  insertion; \<^verbatim>\<open>Array.from\<close> reads it back in that order.
\<close>

definition set_add :: "'a list \<Rightarrow> 'a \<Rightarrow> 'a list" where
  "set_add s x = (if x \<in> set s then s else s @ [x])"

definition new_Set :: "'a list \<Rightarrow> 'a list" where
  "new_Set xs = foldl set_add [] xs"

definition markers_of :: "GanttBlock list \<Rightarrow> int list" where
  "markers_of blocks =
     array_sort (\<lambda>a b. a - b) (new_Set (map start blocks @ map endTime blocks))"

text \<open>
  \<^verbatim>\<open>timeMarkers[timeMarkers.length - 1] || 0\<close>: reading index \<open>-1\<close> of an empty array
  gives \<^verbatim>\<open>undefined\<close>, and \<^verbatim>\<open>||\<close> replaces \<^verbatim>\<open>undefined\<close> and \<open>0\<close> by \<open>0\<close>.
\<close>

definition total_of :: "int list \<Rightarrow> int" where
  "total_of markers =
     (case (if markers = [] then None else Some (last markers)) of
        None \<Rightarrow> 0
      | Some v \<Rightarrow> (if v \<noteq> 0 then v else 0))"

subsection \<open>The function \<^verbatim>\<open>fcfs\<close>\<close>

text \<open>
  Everything after the sort, as a function of the sorted array \<^verbatim>\<open>procs\<close>.
\<close>

definition schedule_sorted :: "Process list \<Rightarrow> FcfsOutput" where
  "schedule_sorted procs =
     (let s = simulate procs;
          blocks = compress_loop (uncompressedTimeline s) 0 0 [];
          markers = markers_of blocks
      in \<lparr>ganttBlocks = blocks, timeMarkers = markers, totalTime = total_of markers,
          results = done_list s\<rparr>)"

text \<open>\<^verbatim>\<open>processes.map((p) => ({ ...p }))\<close> builds a new array of copies of the elements.\<close>

definition fcfs :: "(string \<Rightarrow> string \<Rightarrow> int) \<Rightarrow> Process list \<Rightarrow> FcfsOutput" where
  "fcfs localeCompare processes =
     schedule_sorted (array_sort (compareFn localeCompare) (map (\<lambda>p. p) processes))"

subsection \<open>The same function on a heap of arrays\<close>

text \<open>
  A JavaScript array is an object with an identity, and \<^verbatim>\<open>sort\<close> reorders the array it
  is called on. To say what \<^verbatim>\<open>fcfs\<close> does to the array it is given, arrays of processes
  live in a heap: a reference is an index into the heap, a new array is appended to it.
  The other arrays of \<^verbatim>\<open>fcfs\<close> are created by it and are never the input, and no
  statement of \<^verbatim>\<open>fcfs\<close> assigns to a field of a process object, so the heap holds the
  process arrays only, with the objects as their values.
\<close>

type_synonym heap = "Process list list"

text \<open>\<^verbatim>\<open>processes.map((p) => ({ ...p }))\<close>: a new array, and its reference.\<close>

definition array_map_copy :: "heap \<Rightarrow> nat \<Rightarrow> nat \<times> heap" where
  "array_map_copy h r = (length h, h @ [map (\<lambda>p. p) (h ! r)])"

text \<open>\<^verbatim>\<open>.sort(cmp)\<close>: the array at the reference is replaced by its sorted contents.\<close>

definition array_sort_in_place :: "(Process \<Rightarrow> Process \<Rightarrow> int) \<Rightarrow> heap \<Rightarrow> nat \<Rightarrow> heap" where
  "array_sort_in_place c h r = h[r := array_sort c (h ! r)]"

text \<open>
  \<^verbatim>\<open>fcfs\<close> called with the reference \<open>processes\<close> in the heap \<open>h\<close>: the returned
  object and the heap after the call.
\<close>

definition fcfs_heap :: "(string \<Rightarrow> string \<Rightarrow> int) \<Rightarrow> heap \<Rightarrow> nat \<Rightarrow> FcfsOutput \<times> heap" where
  "fcfs_heap localeCompare h processes =
     (let (procs, h1) = array_map_copy h processes;
          h2 = array_sort_in_place (compareFn localeCompare) h1 procs
      in (schedule_sorted (h2 ! procs), h2))"

section \<open>Specification\<close>

subsection \<open>Well-formed input\<close>

text \<open>The input the page hands over after validation: not empty, arrivals not negative,
  bursts positive.\<close>

definition well_formed :: "Process list \<Rightarrow> bool" where
  "well_formed ps \<longleftrightarrow> ps \<noteq> [] \<and> list_all (\<lambda>p. 0 \<le> arrival p \<and> 0 < burst p) ps"

subsection \<open>Collations\<close>

text \<open>
  What the language asks of a comparator for \<^verbatim>\<open>sort\<close> to have a defined result: swapping
  the arguments swaps the sign, and being not greater is transitive.
\<close>

definition consistent_comparator :: "('a \<Rightarrow> 'a \<Rightarrow> int) \<Rightarrow> bool" where
  "consistent_comparator c \<longleftrightarrow>
     (\<forall>a b. (c a b < 0) = (0 < c b a)) \<and>
     (\<forall>a b d. c a b \<le> 0 \<longrightarrow> c b d \<le> 0 \<longrightarrow> c a d \<le> 0)"

text \<open>
  One collation, used where a concrete one is needed: the lexicographic order of strings by
  the codes of their characters, a proper prefix first. On the identifiers \<^verbatim>\<open>P1\<close>,
  \<^verbatim>\<open>P2\<close>, \<open>\<dots>\<close> the page generates, a letter followed by digits, this is the order
  \<^verbatim>\<open>localeCompare\<close> gives.
\<close>

fun code_unit_compare :: "string \<Rightarrow> string \<Rightarrow> int" where
  "code_unit_compare [] [] = 0"
| "code_unit_compare [] (y # ys) = - 1"
| "code_unit_compare (x # xs) [] = 1"
| "code_unit_compare (x # xs) (y # ys) =
     (if (of_char x :: nat) < of_char y then - 1
      else if (of_char y :: nat) < of_char x then 1
      else code_unit_compare xs ys)"

subsection \<open>Execution order\<close>

text \<open>Arrival time ascending, ties broken by the collation of the identifiers.\<close>

definition arrival_then_id :: "(string \<Rightarrow> string \<Rightarrow> int) \<Rightarrow> Process \<Rightarrow> Process \<Rightarrow> bool" where
  "arrival_then_id localeCompare a b \<longleftrightarrow>
     arrival a < arrival b \<or> (arrival a = arrival b \<and> localeCompare (pid a) (pid b) \<le> 0)"

text \<open>Two processes the order does not separate; a stable sort keeps them as they came.\<close>

definition same_key :: "(string \<Rightarrow> string \<Rightarrow> int) \<Rightarrow> Process \<Rightarrow> Process \<Rightarrow> bool" where
  "same_key localeCompare a b \<longleftrightarrow>
     arrival a = arrival b \<and> localeCompare (pid a) (pid b) = 0"

subsection \<open>The schedule in the specification's words\<close>

text \<open>
  A clock runs over the sorted sequence. A process starts at the later of the clock and its
  arrival, completes a burst later, its turnaround is completion minus arrival, its waiting
  is turnaround minus burst, and the clock moves to the completion.
\<close>

fun spec_schedule :: "int \<Rightarrow> Process list \<Rightarrow> ProcessResult list" where
  "spec_schedule clock [] = []"
| "spec_schedule clock (p # ps) =
     (let start_time = max clock (arrival p);
          completion_time = start_time + burst p;
          turnaround_time = completion_time - arrival p;
          waiting_time = turnaround_time - burst p
      in \<lparr>pid = pid p, arrival = arrival p, burst = burst p,
          completion = completion_time, waiting = waiting_time,
          turnaround = turnaround_time\<rparr> # spec_schedule completion_time ps)"

text \<open>
  The time units the schedule attributes: a gap \<open>arrival - clock\<close> is idle, then the
  process runs for its burst.
\<close>

fun spec_timeline :: "int \<Rightarrow> Process list \<Rightarrow> string list" where
  "spec_timeline clock [] = []"
| "spec_timeline clock (p # ps) =
     replicate (nat (arrival p - clock)) ''IDLE'' @ replicate (nat (burst p)) (pid p) @
     spec_timeline (max clock (arrival p) + burst p) ps"

text \<open>The clock after the last process.\<close>

fun spec_clock :: "int \<Rightarrow> Process list \<Rightarrow> int" where
  "spec_clock clock [] = clock"
| "spec_clock clock (p # ps) = spec_clock (max clock (arrival p) + burst p) ps"

text \<open>The labels of the intervals of the schedule, one per idle gap and one per process.\<close>

fun run_labels :: "int \<Rightarrow> Process list \<Rightarrow> string list" where
  "run_labels clock [] = []"
| "run_labels clock (p # ps) =
     (if clock < arrival p then [''IDLE''] else []) @
     pid p # run_labels (max clock (arrival p) + burst p) ps"

subsection \<open>Run-length encoding\<close>

text \<open>
  The blocks of a list of units by recursion over the list: \<open>t\<close> is the index of the
  head and \<open>blockStart\<close> the start of the block the head belongs to. A block closes at
  the last unit and wherever the next unit differs.
\<close>

fun compress :: "string list \<Rightarrow> int \<Rightarrow> int \<Rightarrow> GanttBlock list" where
  "compress [] t blockStart = []"
| "compress [currentProcess] t blockStart =
     [\<lparr>process = currentProcess, start = blockStart, endTime = t + 1\<rparr>]"
| "compress (currentProcess # next # rest) t blockStart =
     (if next \<noteq> currentProcess
      then \<lparr>process = currentProcess, start = blockStart, endTime = t + 1\<rparr>
             # compress (next # rest) (t + 1) (t + 1)
      else compress (next # rest) (t + 1) blockStart)"

section \<open>Sorting\<close>

lemma array_sort_Nil: "array_sort c [] = []"
  by (simp add: array_sort_def)

lemma array_sort_Cons: "array_sort c (x # xs) = insert_sorted c x (array_sort c xs)"
  by (simp add: array_sort_def)

lemma mset_insert_sorted: "mset (insert_sorted c x ys) = add_mset x (mset ys)"
  by (induction ys) auto

lemma mset_array_sort: "mset (array_sort c xs) = mset xs"
  by (induction xs) (auto simp: array_sort_def mset_insert_sorted)

lemma set_insert_sorted: "set (insert_sorted c x ys) = insert x (set ys)"
  by (induction ys) auto

lemma set_array_sort: "set (array_sort c xs) = set xs"
  using mset_array_sort [of c xs] by (rule mset_eq_setD)

lemma array_sort_Nil_iff: "array_sort c xs = [] \<longleftrightarrow> xs = []"
  using mset_array_sort [of c xs] by (metis mset_zero_iff)

lemma consistent_total: "consistent_comparator c \<Longrightarrow> 0 < c a b \<Longrightarrow> c b a \<le> 0"
  unfolding consistent_comparator_def by (metis less_le_not_le)

lemma consistent_trans:
  "consistent_comparator c \<Longrightarrow> c a b \<le> 0 \<Longrightarrow> c b d \<le> 0 \<Longrightarrow> c a d \<le> 0"
  unfolding consistent_comparator_def by blast

lemma consistent_sym0: "consistent_comparator c \<Longrightarrow> c a b = 0 \<Longrightarrow> c b a = 0"
  unfolding consistent_comparator_def by (metis less_irrefl linorder_neqE_linordered_idom)

text \<open>Insertion keeps a list in the order of a consistent comparator.\<close>

lemma sorted_insert_sorted:
  assumes "consistent_comparator c" "sorted_wrt (\<lambda>a b. c a b \<le> 0) ys"
  shows "sorted_wrt (\<lambda>a b. c a b \<le> 0) (insert_sorted c x ys)"
  using assms(2)
proof (induction ys)
  case Nil
  then show ?case by simp
next
  case (Cons y ys)
  show ?case
  proof (cases "c x y \<le> 0")
    case True
    then have "\<forall>z\<in>set ys. c x z \<le> 0"
      using Cons.prems consistent_trans [OF assms(1)] by auto
    with True Cons.prems show ?thesis by simp
  next
    case False
    then have "c y x \<le> 0" using consistent_total [OF assms(1)] by simp
    with False Cons show ?thesis by (auto simp: set_insert_sorted)
  qed
qed

lemma sorted_array_sort:
  "consistent_comparator c \<Longrightarrow> sorted_wrt (\<lambda>a b. c a b \<le> 0) (array_sort c xs)"
  by (induction xs) (simp_all add: array_sort_Nil array_sort_Cons sorted_insert_sorted)

text \<open>
  Stability: the elements that compare equal to \<open>k\<close> keep their order, because an
  inserted element only passes elements it compares greater than.
\<close>

lemma filter_insert_sorted:
  assumes "consistent_comparator c"
  shows "filter (\<lambda>y. c k y = 0) (insert_sorted c x ys) =
         (if c k x = 0 then x # filter (\<lambda>y. c k y = 0) ys else filter (\<lambda>y. c k y = 0) ys)"
proof (induction ys)
  case Nil
  then show ?case by simp
next
  case (Cons y ys)
  have "c x y \<le> 0" if "c k x = 0" "c k y = 0"
    using that consistent_sym0 [OF assms] consistent_trans [OF assms, of x k y] by simp
  with Cons show ?case by auto
qed

lemma stable_array_sort:
  "consistent_comparator c \<Longrightarrow>
   filter (\<lambda>y. c k y = 0) (array_sort c xs) = filter (\<lambda>y. c k y = 0) xs"
  by (induction xs) (simp_all add: array_sort_Nil array_sort_Cons filter_insert_sorted)

lemma consistent_refl:
  assumes "consistent_comparator c"
  shows "c a a = 0"
proof -
  from assms have "(c a a < 0) = (0 < c a a)"
    unfolding consistent_comparator_def by blast
  then show ?thesis by linarith
qed

lemma consistent_antisym0:
  assumes "consistent_comparator c" and "c a b \<le> 0" and "c b a \<le> 0"
  shows "c a b = 0"
proof -
  from assms(1) have "(c a b < 0) = (0 < c b a)"
    unfolding consistent_comparator_def by blast
  with assms(2,3) show ?thesis by linarith
qed

text \<open>
  A sorted and stable arrangement is unique, so the result does not depend on the sorting
  algorithm of the engine: any such arrangement of \<open>xs\<close> is \<open>array_sort c xs\<close>.
\<close>

lemma hd_in_other:
  assumes "consistent_comparator c"
    and "filter (\<lambda>x. c y x = 0) (y # ys) = filter (\<lambda>x. c y x = 0) zs"
  shows "y \<in> set zs"
proof -
  have "y \<in> set (filter (\<lambda>x. c y x = 0) (y # ys))"
    using consistent_refl [OF assms(1)] by simp
  with assms(2) have "y \<in> set (filter (\<lambda>x. c y x = 0) zs)" by simp
  then show ?thesis by simp
qed

lemma stable_sorted_unique:
  assumes c: "consistent_comparator c"
  shows "sorted_wrt (\<lambda>a b. c a b \<le> 0) ys \<Longrightarrow> sorted_wrt (\<lambda>a b. c a b \<le> 0) zs \<Longrightarrow>
         (\<And>k. filter (\<lambda>y. c k y = 0) ys = filter (\<lambda>y. c k y = 0) zs) \<Longrightarrow> ys = zs"
proof (induction ys arbitrary: zs)
  case Nil
  show ?case
  proof (cases zs)
    case Nil
    then show ?thesis by simp
  next
    case (Cons z zs')
    with Nil.prems(3) [of z] consistent_refl [OF c, of z] show ?thesis by simp
  qed
next
  case (Cons y ys)
  note refl = consistent_refl [OF c]
  from Cons.prems(3) [of y] have yin: "y \<in> set zs"
    by (rule hd_in_other [OF c])
  then obtain z zs' where zs: "zs = z # zs'" by (cases zs) auto
  from Cons.prems(3) [of z] zs have "filter (\<lambda>x. c z x = 0) (z # zs') = filter (\<lambda>x. c z x = 0) (y # ys)"
    by simp
  then have zin: "z \<in> set (y # ys)"
    by (rule hd_in_other [OF c])
  have yz: "c y z \<le> 0"
  proof (cases "z = y")
    case True
    with refl [of y] show ?thesis by simp
  next
    case False
    with zin have "z \<in> set ys" by simp
    with Cons.prems(1) show ?thesis by simp
  qed
  have zy: "c z y \<le> 0"
  proof (cases "y = z")
    case True
    with refl [of z] show ?thesis by simp
  next
    case False
    with yin zs have "y \<in> set zs'" by simp
    with Cons.prems(2) zs show ?thesis by simp
  qed
  have e: "c y z = 0" using c yz zy by (rule consistent_antisym0)
  have "y = hd (filter (\<lambda>x. c y x = 0) (y # ys))"
    using refl [of y] by simp
  also have "\<dots> = hd (filter (\<lambda>x. c y x = 0) (z # zs'))"
    by (simp only: Cons.prems(3) [of y] zs)
  also have "\<dots> = z"
    using e by simp
  finally have yz_eq: "y = z" .
  have tails: "filter (\<lambda>x. c k x = 0) ys = filter (\<lambda>x. c k x = 0) zs'" for k
  proof -
    have "filter (\<lambda>x. c k x = 0) (z # ys) = filter (\<lambda>x. c k x = 0) (z # zs')"
      using Cons.prems(3) [of k] by (simp only: zs yz_eq)
    then show ?thesis by (cases "c k z = 0") simp_all
  qed
  have "ys = zs'"
  proof (rule Cons.IH)
    show "sorted_wrt (\<lambda>a b. c a b \<le> 0) ys" using Cons.prems(1) by simp
    show "sorted_wrt (\<lambda>a b. c a b \<le> 0) zs'" using Cons.prems(2) zs by simp
    show "filter (\<lambda>x. c k x = 0) ys = filter (\<lambda>x. c k x = 0) zs'" for k by (rule tails)
  qed
  with zs yz_eq show ?case by simp
qed

lemma array_sort_unique:
  assumes "consistent_comparator c" and "sorted_wrt (\<lambda>a b. c a b \<le> 0) ys"
    and "\<And>k. filter (\<lambda>y. c k y = 0) ys = filter (\<lambda>y. c k y = 0) xs"
  shows "ys = array_sort c xs"
  using assms(1,2) sorted_array_sort [OF assms(1)]
  by (rule stable_sorted_unique) (simp add: assms(3) stable_array_sort [OF assms(1)])

text \<open>The comparator of \<^verbatim>\<open>fcfs\<close> is consistent when the collation is.\<close>

lemma consistent_compareFn:
  assumes "consistent_comparator lc"
  shows "consistent_comparator (compareFn lc)"
  unfolding consistent_comparator_def
proof (intro conjI allI impI)
  fix a b :: "'a Process_scheme"
  show "(compareFn lc a b < 0) = (0 < compareFn lc b a)"
    using assms unfolding consistent_comparator_def compareFn_def by auto
next
  fix a b d :: "'a Process_scheme"
  assume "compareFn lc a b \<le> 0" "compareFn lc b d \<le> 0"
  then show "compareFn lc a d \<le> 0"
    using consistent_trans [OF assms, of "pid a" "pid b" "pid d"]
    unfolding compareFn_def by (auto split: if_splits)
qed

lemma compareFn_le0: "(compareFn lc a b \<le> 0) = arrival_then_id lc a b"
  by (auto simp: compareFn_def arrival_then_id_def)

lemma compareFn_eq0: "(compareFn lc a b = 0) = same_key lc a b"
  by (auto simp: compareFn_def same_key_def)

text \<open>The character-code collation is consistent.\<close>

lemma code_unit_compare_antisym:
  "(code_unit_compare a b < 0) = (0 < code_unit_compare b a)"
  by (induction a b rule: code_unit_compare.induct) auto

lemma code_unit_compare_trans:
  "code_unit_compare a b \<le> 0 \<Longrightarrow> code_unit_compare b d \<le> 0 \<Longrightarrow> code_unit_compare a d \<le> 0"
proof (induction a arbitrary: b d)
  case Nil
  then show ?case by (cases d) auto
next
  case (Cons x a)
  then show ?case
    by (cases b; cases d) (auto split: if_splits)
qed

lemma consistent_code_unit_compare: "consistent_comparator code_unit_compare"
  unfolding consistent_comparator_def
  using code_unit_compare_antisym code_unit_compare_trans by blast

section \<open>The compression loop\<close>

text \<open>
  From index \<open>t\<close> on, the loop appends the run-length encoding of the rest of the
  timeline to the blocks it has.
\<close>

lemma compress_loop_eq:
  "compress_loop us t bs acc = acc @ compress (drop t us) (int t) bs"
proof (induction us t bs acc rule: compress_loop.induct)
  case (1 timeline t blockStart blocks)
  let ?b = "\<lparr>process = timeline ! t, start = blockStart, endTime = int t + 1\<rparr>"
  show ?case
  proof (cases "t < length timeline")
    case False
    then show ?thesis by (subst compress_loop.simps) simp
  next
    case True
    show ?thesis
    proof (cases "t = length timeline - 1 \<or> timeline ! (t + 1) \<noteq> timeline ! t")
      case close: True
      have "compress_loop timeline t blockStart blocks
              = compress_loop timeline (t + 1) (int t + 1) (blocks @ [?b])"
        using True close by (subst compress_loop.simps) simp
      also have "\<dots> = (blocks @ [?b]) @ compress (drop (t + 1) timeline) (int (t + 1)) (int t + 1)"
        using True close by (rule "1.IH"(1))
      also have "\<dots> = blocks @ compress (drop t timeline) (int t) blockStart"
      proof (cases "t = length timeline - 1")
        case True
        with \<open>t < length timeline\<close> have "drop t timeline = [timeline ! t]"
          and "drop (t + 1) timeline = []"
          by (simp_all flip: Cons_nth_drop_Suc)
        then show ?thesis by simp
      next
        case False
        with \<open>t < length timeline\<close> have lt: "Suc t < length timeline" by auto
        with close False have ne: "timeline ! Suc t \<noteq> timeline ! t" by simp
        from lt have "drop t timeline = timeline ! t # timeline ! Suc t # drop (Suc (Suc t)) timeline"
          and "drop (t + 1) timeline = timeline ! Suc t # drop (Suc (Suc t)) timeline"
          by (simp_all add: Cons_nth_drop_Suc)
        with ne show ?thesis by (simp add: add.commute)
      qed
      finally show ?thesis .
    next
      case keep: False
      with True have lt: "Suc t < length timeline" by auto
      from keep have eq: "timeline ! Suc t = timeline ! t" by simp
      have "compress_loop timeline t blockStart blocks
              = compress_loop timeline (t + 1) blockStart blocks"
        using True keep by (subst compress_loop.simps) simp
      also have "\<dots> = blocks @ compress (drop (t + 1) timeline) (int (t + 1)) blockStart"
        using True keep by (rule "1.IH"(2))
      also have "\<dots> = blocks @ compress (drop t timeline) (int t) blockStart"
      proof -
        from lt have "drop t timeline = timeline ! t # timeline ! Suc t # drop (Suc (Suc t)) timeline"
          and "drop (t + 1) timeline = timeline ! Suc t # drop (Suc (Suc t)) timeline"
          by (simp_all add: Cons_nth_drop_Suc)
        with eq show ?thesis by (simp add: add.commute)
      qed
      finally show ?thesis .
    qed
  qed
qed

section \<open>The loop computes the schedule\<close>

lemma foldl_loop_body:
  "foldl loop_body s procs =
     \<lparr>time = spec_clock (time s) procs,
      done_list = done_list s @ spec_schedule (time s) procs,
      uncompressedTimeline = uncompressedTimeline s @ spec_timeline (time s) procs\<rparr>"
proof (induction procs arbitrary: s)
  case Nil
  then show ?case by simp
next
  case (Cons p procs)
  have t: "time (loop_body s p) = max (time s) (arrival p) + burst p"
    by (simp add: loop_body_def Let_def max_def)
  have d: "done_list (loop_body s p) @ spec_schedule (max (time s) (arrival p) + burst p) procs
            = done_list s @ spec_schedule (time s) (p # procs)"
    by (simp add: loop_body_def Let_def max_def)
  have u: "uncompressedTimeline (loop_body s p)
              @ spec_timeline (max (time s) (arrival p) + burst p) procs
            = uncompressedTimeline s @ spec_timeline (time s) (p # procs)"
    by (simp add: loop_body_def Let_def)
  show ?case
    by (simp only: foldl_Cons Cons.IH t d u spec_clock.simps)
qed

lemma simulate_spec:
  "simulate procs = \<lparr>time = spec_clock 0 procs, done_list = spec_schedule 0 procs,
      uncompressedTimeline = spec_timeline 0 procs\<rparr>"
  by (simp add: simulate_def foldl_loop_body)

lemma results_fcfs: "results (fcfs lc ps) = spec_schedule 0 (array_sort (compareFn lc) ps)"
  by (simp add: fcfs_def schedule_sorted_def Let_def simulate_spec)

lemma ganttBlocks_fcfs:
  "ganttBlocks (fcfs lc ps) = compress (spec_timeline 0 (array_sort (compareFn lc) ps)) 0 0"
  by (simp add: fcfs_def schedule_sorted_def Let_def simulate_spec compress_loop_eq)

lemma totalTime_fcfs:
  "totalTime (fcfs lc ps) = total_of (markers_of (ganttBlocks (fcfs lc ps)))"
  by (simp add: fcfs_def schedule_sorted_def Let_def)

lemma truncate_spec_schedule: "map Process.truncate (spec_schedule clock procs) = procs"
  by (induction procs arbitrary: clock) (simp_all add: Let_def Process.truncate_def)

lemma length_spec_schedule: "length (spec_schedule clock ps) = length ps"
  by (induction ps arbitrary: clock) (simp_all add: Let_def)

section \<open>Execution order\<close>

text \<open>
  C1. For every input, the results of \<^verbatim>\<open>fcfs\<close>, read as processes, are the input sorted
  by arrival time ascending with ties broken by the identifier: they are the sorted array,
  a rearrangement of the input, in the order \<open>arrival_then_id\<close>, and processes that
  the order does not separate stay in their input order. The order of identifiers is the
  one \<^verbatim>\<open>localeCompare\<close> gives, for any collation that is a consistent comparator; the
  order by character codes is one.
\<close>

theorem fcfs_results_order:
  assumes "consistent_comparator localeCompare"
  shows "map Process.truncate (results (fcfs localeCompare ps))
           = array_sort (compareFn localeCompare) ps
       \<and> mset (map Process.truncate (results (fcfs localeCompare ps))) = mset ps
       \<and> sorted_wrt (arrival_then_id localeCompare)
           (map Process.truncate (results (fcfs localeCompare ps)))
       \<and> (\<forall>p. filter (same_key localeCompare p)
                 (map Process.truncate (results (fcfs localeCompare ps)))
               = filter (same_key localeCompare p) ps)"
proof -
  let ?c = "compareFn localeCompare :: Process \<Rightarrow> Process \<Rightarrow> int"
  have c: "consistent_comparator ?c"
    using assms by (rule consistent_compareFn)
  have eq: "map Process.truncate (results (fcfs localeCompare ps)) = array_sort ?c ps"
    by (simp add: results_fcfs truncate_spec_schedule)
  have s: "sorted_wrt (arrival_then_id localeCompare) (array_sort ?c ps)"
    using sorted_array_sort [OF c, of ps] by (simp add: compareFn_le0)
  have f: "filter (same_key localeCompare p) (array_sort ?c ps)
             = filter (same_key localeCompare p) ps" for p
    using stable_array_sort [OF c, of p ps] by (simp add: compareFn_eq0)
  show ?thesis
    by (simp add: eq mset_array_sort s f)
qed

text \<open>Two processes arriving together, given in the other order, come out by identifier.\<close>

theorem fcfs_results_order_witness:
  "consistent_comparator code_unit_compare \<and>
   map Process.truncate (results (fcfs code_unit_compare
      [\<lparr>pid = ''P2'', arrival = 0, burst = 2\<rparr>, \<lparr>pid = ''P1'', arrival = 0, burst = 3\<rparr>]))
    = [\<lparr>pid = ''P1'', arrival = 0, burst = 3\<rparr>, \<lparr>pid = ''P2'', arrival = 0, burst = 2\<rparr>]"
  using fcfs_results_order [OF consistent_code_unit_compare,
      of "[\<lparr>pid = ''P2'', arrival = 0, burst = 2\<rparr>, \<lparr>pid = ''P1'', arrival = 0, burst = 3\<rparr>]"]
  by (simp add: consistent_code_unit_compare array_sort_def compareFn_def)

section \<open>The fields of the results\<close>

text \<open>
  C2. The loop of \<^verbatim>\<open>fcfs\<close> is the schedule of the specification run on the sorted
  sequence with the clock at 0: every entry of the results starts at the later of the clock
  and its arrival, completes a burst later, has turnaround completion minus arrival and
  waiting turnaround minus burst, and the clock moves to its completion; the blocks are the
  compression of the time units of that schedule, in which a gap before an arrival is idle.
  This holds for every input, the well-formed ones among them.
\<close>

theorem fcfs_refines_spec:
  "results (fcfs localeCompare ps)
     = spec_schedule 0 (array_sort (compareFn localeCompare) ps)
   \<and> ganttBlocks (fcfs localeCompare ps)
     = compress_loop (spec_timeline 0 (array_sort (compareFn localeCompare) ps)) 0 0 []"
  by (simp add: results_fcfs ganttBlocks_fcfs compress_loop_eq)

text \<open>Waiting and turnaround in the schedule, whatever the clock and the processes.\<close>

lemma spec_schedule_nonneg:
  "r \<in> set (spec_schedule clock ps) \<Longrightarrow> 0 \<le> waiting r \<and> burst r \<le> turnaround r"
  by (induction ps arbitrary: clock) (auto simp: Let_def)

text \<open>
  C4. Every entry of the results of \<^verbatim>\<open>fcfs\<close> has a waiting time that is not negative
  and a turnaround that is at least its burst. This holds for every input, the well-formed
  ones among them.
\<close>

theorem waiting_nonneg:
  "r \<in> set (results (fcfs localeCompare ps)) \<Longrightarrow> 0 \<le> waiting r \<and> burst r \<le> turnaround r"
  by (simp add: results_fcfs spec_schedule_nonneg)

text \<open>The second process of two that arrive together waits for the first.\<close>

theorem waiting_nonneg_witness:
  "\<lparr>pid = ''P2'', arrival = 0, burst = 2, completion = 5, waiting = 3, turnaround = 5\<rparr>
     \<in> set (results (fcfs code_unit_compare
         [\<lparr>pid = ''P2'', arrival = 0, burst = 2\<rparr>, \<lparr>pid = ''P1'', arrival = 0, burst = 3\<rparr>]))
   \<and> (0::int) \<le> waiting \<lparr>pid = ''P2'', arrival = 0, burst = 2, completion = 5, waiting = 3, turnaround = 5\<rparr>
   \<and> burst \<lparr>pid = ''P2'', arrival = 0, burst = 2, completion = 5, waiting = 3, turnaround = 5\<rparr>
       \<le> turnaround \<lparr>pid = ''P2'', arrival = 0, burst = 2, completion = 5, waiting = 3, turnaround = 5\<rparr>"
proof -
  have m: "\<lparr>pid = ''P2'', arrival = 0, burst = 2, completion = 5, waiting = 3, turnaround = 5\<rparr>
     \<in> set (results (fcfs code_unit_compare
         [\<lparr>pid = ''P2'', arrival = 0, burst = 2\<rparr>, \<lparr>pid = ''P1'', arrival = 0, burst = 3\<rparr>]))"
    by code_simp
  from waiting_nonneg [OF m] m show ?thesis by blast
qed

section \<open>When a process does not wait\<close>

text \<open>
  C5 as stated fails. Here the first process starts at time 2 after an idle block and has
  waiting time 0, and the second process, which arrives after the first has completed, has
  waiting time 0 as well.
\<close>

theorem waiting_zero_counterexample:
  "well_formed [\<lparr>pid = ''P1'', arrival = 2, burst = 3\<rparr>, \<lparr>pid = ''P2'', arrival = 9, burst = 1\<rparr>]
   \<and> waiting (results (fcfs code_unit_compare
        [\<lparr>pid = ''P1'', arrival = 2, burst = 3\<rparr>, \<lparr>pid = ''P2'', arrival = 9, burst = 1\<rparr>]) ! 1) = 0
   \<and> pid (results (fcfs code_unit_compare
        [\<lparr>pid = ''P1'', arrival = 2, burst = 3\<rparr>, \<lparr>pid = ''P2'', arrival = 9, burst = 1\<rparr>]) ! 1) = ''P2''
   \<and> waiting (results (fcfs code_unit_compare
        [\<lparr>pid = ''P1'', arrival = 2, burst = 3\<rparr>, \<lparr>pid = ''P2'', arrival = 9, burst = 1\<rparr>]) ! 0) = 0
   \<and> ganttBlocks (fcfs code_unit_compare
        [\<lparr>pid = ''P1'', arrival = 2, burst = 3\<rparr>, \<lparr>pid = ''P2'', arrival = 9, burst = 1\<rparr>]) ! 0
       = \<lparr>process = ''IDLE'', start = 0, endTime = 2\<rparr>"
  by code_simp

text \<open>The waiting time of an entry is the time from its arrival to its start.\<close>

lemma spec_schedule_waiting:
  "i < length ps \<Longrightarrow>
   waiting (spec_schedule clock ps ! i) =
     max (if i = 0 then clock else completion (spec_schedule clock ps ! (i - 1)))
         (arrival (spec_schedule clock ps ! i))
     - arrival (spec_schedule clock ps ! i)"
proof (induction ps arbitrary: clock i)
  case Nil
  then show ?case by simp
next
  case (Cons p ps)
  show ?case
  proof (cases i)
    case 0
    then show ?thesis by (simp add: Let_def)
  next
    case (Suc j)
    with Cons.prems have j: "j < length ps" by simp
    show ?thesis
    proof (cases j)
      case 0
      with Suc j Cons.IH [OF j, of "max clock (arrival p) + burst p"] show ?thesis
        by (simp add: Let_def)
    next
      case (Suc k)
      with \<open>i = Suc j\<close> j Cons.IH [OF j, of "max clock (arrival p) + burst p"] show ?thesis
        by (simp add: Let_def)
    qed
  qed
qed

text \<open>
  C5, amended. A process in the results has waiting time 0 exactly when its arrival is not
  before the clock it meets, which is 0 for the first process in execution order and the
  completion of the process before it for any other; every other process has a positive
  waiting time.
\<close>

theorem waiting_zero_iff:
  assumes "i < length (results (fcfs localeCompare ps))"
  shows "(waiting (results (fcfs localeCompare ps) ! i) = 0 \<longleftrightarrow>
            (if i = 0 then 0 else completion (results (fcfs localeCompare ps) ! (i - 1)))
              \<le> arrival (results (fcfs localeCompare ps) ! i))
       \<and> (waiting (results (fcfs localeCompare ps) ! i) \<noteq> 0 \<longrightarrow>
            0 < waiting (results (fcfs localeCompare ps) ! i))"
proof -
  let ?procs = "array_sort (compareFn localeCompare) ps"
  from assms have "i < length ?procs"
    by (simp add: results_fcfs length_spec_schedule)
  from spec_schedule_waiting [OF this, of 0] show ?thesis
    by (auto simp: results_fcfs max_def split: if_splits)
qed

text \<open>A process that arrives while another runs waits until that one completes.\<close>

theorem waiting_zero_iff_witness:
  "1 < length (results (fcfs code_unit_compare
        [\<lparr>pid = ''P1'', arrival = 0, burst = 4\<rparr>, \<lparr>pid = ''P2'', arrival = 2, burst = 2\<rparr>]))
   \<and> waiting (results (fcfs code_unit_compare
        [\<lparr>pid = ''P1'', arrival = 0, burst = 4\<rparr>, \<lparr>pid = ''P2'', arrival = 2, burst = 2\<rparr>]) ! 1) = 2
   \<and> \<not> completion (results (fcfs code_unit_compare
        [\<lparr>pid = ''P1'', arrival = 0, burst = 4\<rparr>, \<lparr>pid = ''P2'', arrival = 2, burst = 2\<rparr>]) ! 0)
       \<le> arrival (results (fcfs code_unit_compare
        [\<lparr>pid = ''P1'', arrival = 0, burst = 4\<rparr>, \<lparr>pid = ''P2'', arrival = 2, burst = 2\<rparr>]) ! 1)"
proof -
  let ?rs = "results (fcfs code_unit_compare
        [\<lparr>pid = ''P1'', arrival = 0, burst = 4\<rparr>, \<lparr>pid = ''P2'', arrival = 2, burst = 2\<rparr>])"
  have l: "1 < length ?rs" by code_simp
  have w: "waiting (?rs ! 1) = 2" by code_simp
  from waiting_zero_iff [OF l] w l show ?thesis by simp
qed


section \<open>Compression\<close>

text \<open>
  The blocks of a non-empty array of units, compressed from index \<open>t\<close> with a block open
  since \<open>bs\<close>: the first starts at \<open>bs\<close>, the last ends after the last unit, each ends
  where the next starts, and none is empty.
\<close>

lemma compress_props:
  "us \<noteq> [] \<Longrightarrow> bs \<le> t \<Longrightarrow>
   compress us t bs \<noteq> [] \<and> start (hd (compress us t bs)) = bs \<and>
   endTime (last (compress us t bs)) = t + int (length us) \<and>
   successively (\<lambda>a b. endTime a = start b) (compress us t bs) \<and>
   (\<forall>b\<in>set (compress us t bs).
      bs \<le> start b \<and> start b < endTime b \<and> endTime b \<le> t + int (length us))"
proof (induction us t bs rule: compress.induct)
  case (1 t blockStart)
  then show ?case by simp
next
  case (2 currentProcess t blockStart)
  then show ?case by simp
next
  case (3 currentProcess "next" rest t blockStart)
  show ?case
  proof (cases "next \<noteq> currentProcess")
    case True
    with 3 show ?thesis
      by (cases "compress (next # rest) (t + 1) (t + 1)") (auto simp: successively_Cons)
  next
    case False
    with 3 show ?thesis by auto
  qed
qed

lemma map_process_compress: "map process (compress us t bs) = remdups_adj us"
  by (induction us t bs rule: compress.induct) auto

lemma sum_durations:
  "successively (\<lambda>a b. endTime a = start b) bs \<Longrightarrow> bs \<noteq> [] \<Longrightarrow>
   sum_list (map (\<lambda>b. endTime b - start b) bs) = endTime (last bs) - start (hd bs)"
proof (induction bs)
  case Nil
  then show ?case by simp
next
  case (Cons b bs)
  then show ?case by (cases bs) auto
qed

text \<open>The largest block boundary is the number of units.\<close>

lemma Max_markers:
  assumes "us \<noteq> []"
  shows "Max (start ` set (compress us 0 0) \<union> endTime ` set (compress us 0 0)) = int (length us)"
proof (rule Max_eqI)
  show "finite (start ` set (compress us 0 0) \<union> endTime ` set (compress us 0 0))" by simp
next
  fix y assume "y \<in> start ` set (compress us 0 0) \<union> endTime ` set (compress us 0 0)"
  then show "y \<le> int (length us)"
    using compress_props [OF assms, of 0 0] by fastforce
next
  have "compress us 0 0 \<noteq> []" "endTime (last (compress us 0 0)) = int (length us)"
    using compress_props [OF assms, of 0 0] by simp_all
  then have "int (length us) \<in> endTime ` set (compress us 0 0)"
    by (metis imageI last_in_set)
  then show "int (length us) \<in> start ` set (compress us 0 0) \<union> endTime ` set (compress us 0 0)"
    by simp
qed

section \<open>Markers\<close>

text \<open>The numeric comparator \<^verbatim>\<open>(a, b) => a - b\<close> sorts integers in their order.\<close>

lemma insert_sorted_minus: "insert_sorted (\<lambda>a b. a - b) (x::int) ys = insort x ys"
  by (induction ys) auto

lemma array_sort_minus: "array_sort (\<lambda>a b. a - b) (xs::int list) = sort xs"
  by (induction xs) (simp_all add: array_sort_Nil array_sort_Cons insert_sorted_minus)

lemma foldl_set_add:
  "set (foldl set_add acc xs) = set acc \<union> set xs \<and>
   (distinct acc \<longrightarrow> distinct (foldl set_add acc xs))"
  by (induction xs arbitrary: acc) (auto simp: set_add_def)

lemma set_new_Set: "set (new_Set xs) = set xs"
  by (simp add: new_Set_def foldl_set_add)

lemma distinct_new_Set: "distinct (new_Set xs)"
  using foldl_set_add [of "[]" xs] by (simp add: new_Set_def)

lemma markers_of_eq:
  "markers_of blocks = sorted_list_of_set (start ` set blocks \<union> endTime ` set blocks)"
proof -
  let ?xs = "new_Set (map start blocks @ map endTime blocks)"
  have "sort ?xs = sorted_list_of_set (set ?xs)"
    using distinct_new_Set [of "map start blocks @ map endTime blocks"]
    by (simp add: sorted_list_of_set_sort_remdups distinct_remdups_id)
  then show ?thesis
    by (simp add: markers_of_def array_sort_minus set_new_Set)
qed

lemma markers_of_Nil_iff: "markers_of blocks = [] \<longleftrightarrow> blocks = []"
  by (simp add: markers_of_eq)

lemma le_last_sorted: "sorted xs \<Longrightarrow> y \<in> set xs \<Longrightarrow> y \<le> last (xs::int list)"
  by (induction xs) auto

lemma last_sorted_Max: "sorted xs \<Longrightarrow> xs \<noteq> [] \<Longrightarrow> last xs = Max (set (xs::int list))"
  by (rule Max_eqI [symmetric]) (simp_all add: le_last_sorted)

lemma total_of_eq:
  "total_of (markers_of blocks) = (if blocks = [] then 0 else Max (set (markers_of blocks)))"
proof (cases "blocks = []")
  case True
  then show ?thesis by (simp add: total_of_def markers_of_eq)
next
  case False
  then have ne: "markers_of blocks \<noteq> []" by (simp add: markers_of_Nil_iff)
  have "sorted (markers_of blocks)" by (simp add: markers_of_eq)
  then have "last (markers_of blocks) = Max (set (markers_of blocks))"
    using ne by (rule last_sorted_Max)
  with False ne show ?thesis by (simp add: total_of_def)
qed

text \<open>
  C8. For every input, the time markers of \<^verbatim>\<open>fcfs\<close> are the set of the start and end
  values of all blocks, without duplicates, in ascending order, and the total time is the
  largest marker, or 0 when there is no block.
\<close>

theorem fcfs_markers:
  "timeMarkers (fcfs localeCompare ps)
     = sorted_list_of_set (start ` set (ganttBlocks (fcfs localeCompare ps))
                           \<union> endTime ` set (ganttBlocks (fcfs localeCompare ps)))
   \<and> totalTime (fcfs localeCompare ps)
     = (if ganttBlocks (fcfs localeCompare ps) = [] then 0
        else Max (set (timeMarkers (fcfs localeCompare ps))))"
  by (simp add: fcfs_def schedule_sorted_def Let_def markers_of_eq [symmetric] total_of_eq)

section \<open>Adjacent blocks\<close>

text \<open>
  C6. In the blocks returned by \<^verbatim>\<open>fcfs\<close>, two adjacent blocks never carry the same
  label. This holds for every input, the well-formed ones among them.
\<close>

theorem adjacent_blocks_differ:
  assumes "Suc i < length (ganttBlocks (fcfs localeCompare ps))"
  shows "process (ganttBlocks (fcfs localeCompare ps) ! i)
           \<noteq> process (ganttBlocks (fcfs localeCompare ps) ! Suc i)"
proof -
  let ?bs = "ganttBlocks (fcfs localeCompare ps)"
  have "distinct_adj (map process ?bs)"
    by (simp add: ganttBlocks_fcfs map_process_compress)
  moreover from assms have "Suc i < length (map process ?bs)" by simp
  ultimately have "map process ?bs ! i \<noteq> map process ?bs ! Suc i"
    by (rule distinct_adj_nth)
  with assms show ?thesis by simp
qed

text \<open>A process that arrives at time 2 gives an idle block and then its own.\<close>

theorem adjacent_blocks_differ_witness:
  "Suc 0 < length (ganttBlocks (fcfs code_unit_compare [\<lparr>pid = ''P1'', arrival = 2, burst = 3\<rparr>]))
   \<and> process (ganttBlocks (fcfs code_unit_compare [\<lparr>pid = ''P1'', arrival = 2, burst = 3\<rparr>]) ! 0)
       \<noteq> process (ganttBlocks (fcfs code_unit_compare [\<lparr>pid = ''P1'', arrival = 2, burst = 3\<rparr>]) ! Suc 0)
   \<and> map process (ganttBlocks (fcfs code_unit_compare [\<lparr>pid = ''P1'', arrival = 2, burst = 3\<rparr>]))
       = [''IDLE'', ''P1'']"
proof -
  let ?bs = "ganttBlocks (fcfs code_unit_compare [\<lparr>pid = ''P1'', arrival = 2, burst = 3\<rparr>])"
  have l: "Suc 0 < length ?bs" by code_simp
  have m: "map process ?bs = [''IDLE'', ''P1'']" by code_simp
  from adjacent_blocks_differ [OF l] l m show ?thesis by blast
qed


section \<open>Coverage of the timeline\<close>

text \<open>
  With bursts that are not negative the clock never goes back, the schedule attributes as
  many units as the clock advances, and no completion is later than the final clock, which
  is the completion of the last process.
\<close>

lemma spec_clock_mono:
  "list_all (\<lambda>p. 0 \<le> burst p) ps \<Longrightarrow> clock \<le> spec_clock clock ps"
proof (induction ps arbitrary: clock)
  case Nil
  then show ?case by simp
next
  case (Cons p ps)
  from Cons.prems
  have "max clock (arrival p) + burst p \<le> spec_clock (max clock (arrival p) + burst p) ps"
    by (intro Cons.IH) simp
  with Cons.prems show ?case by (simp add: max_def split: if_splits)
qed

lemma spec_clock_pos:
  assumes "list_all (\<lambda>p. 0 < burst p) ps" and "ps \<noteq> []"
  shows "clock < spec_clock clock ps"
proof (cases ps)
  case Nil
  with assms(2) show ?thesis by simp
next
  case (Cons p qs)
  with assms(1) have "list_all (\<lambda>p. 0 \<le> burst p) qs"
    by (auto simp: list_all_iff intro: less_imp_le)
  from spec_clock_mono [OF this, of "max clock (arrival p) + burst p"] assms(1) Cons
  show ?thesis by (simp add: max_def split: if_splits)
qed

lemma length_spec_timeline:
  "list_all (\<lambda>p. 0 \<le> burst p) ps \<Longrightarrow>
   int (length (spec_timeline clock ps)) = spec_clock clock ps - clock"
proof (induction ps arbitrary: clock)
  case Nil
  then show ?case by simp
next
  case (Cons p ps)
  from Cons.prems have "int (length (spec_timeline (max clock (arrival p) + burst p) ps))
      = spec_clock (max clock (arrival p) + burst p) ps - (max clock (arrival p) + burst p)"
    by (intro Cons.IH) simp
  with Cons.prems show ?case by (simp add: max_def)
qed

lemma completion_le_clock:
  "list_all (\<lambda>p. 0 \<le> burst p) ps \<Longrightarrow> r \<in> set (spec_schedule clock ps) \<Longrightarrow>
   completion r \<le> spec_clock clock ps"
proof (induction ps arbitrary: clock)
  case Nil
  then show ?case by simp
next
  case (Cons p ps)
  from Cons.prems(1) have b: "list_all (\<lambda>p. 0 \<le> burst p) ps" by simp
  from Cons.prems(2) consider "completion r = max clock (arrival p) + burst p"
    | "r \<in> set (spec_schedule (max clock (arrival p) + burst p) ps)"
    by (auto simp: Let_def)
  then show ?case
  proof cases
    case 1
    with spec_clock_mono [OF b, of "max clock (arrival p) + burst p"] show ?thesis by simp
  next
    case 2
    with Cons.IH [OF b 2] show ?thesis by simp
  qed
qed

lemma clock_in_completions:
  "ps \<noteq> [] \<Longrightarrow> spec_clock clock ps \<in> completion ` set (spec_schedule clock ps)"
proof (induction ps arbitrary: clock)
  case Nil
  then show ?case by simp
next
  case (Cons p ps)
  show ?case
  proof (cases "ps = []")
    case True
    then show ?thesis by (simp add: Let_def)
  next
    case False
    from Cons.IH [OF False, of "max clock (arrival p) + burst p"] show ?thesis
      by (auto simp: Let_def)
  qed
qed

lemma Max_completion:
  assumes "list_all (\<lambda>p. 0 \<le> burst p) ps" "ps \<noteq> []"
  shows "Max (completion ` set (spec_schedule clock ps)) = spec_clock clock ps"
  by (rule Max_eqI) (use assms in \<open>auto simp: completion_le_clock clock_in_completions\<close>)

text \<open>
  C3. For every non-empty well-formed input, the blocks returned by \<^verbatim>\<open>fcfs\<close>, in order,
  start at 0, each ends where the next starts, their durations add up to the total time,
  and the total time is the largest completion time among the processes.
\<close>

theorem fcfs_timeline_covers:
  assumes "well_formed ps"
  shows "ganttBlocks (fcfs localeCompare ps) \<noteq> []
       \<and> start (ganttBlocks (fcfs localeCompare ps) ! 0) = 0
       \<and> (\<forall>i. Suc i < length (ganttBlocks (fcfs localeCompare ps)) \<longrightarrow>
              endTime (ganttBlocks (fcfs localeCompare ps) ! i)
                = start (ganttBlocks (fcfs localeCompare ps) ! Suc i))
       \<and> sum_list (map (\<lambda>b. endTime b - start b) (ganttBlocks (fcfs localeCompare ps)))
           = totalTime (fcfs localeCompare ps)
       \<and> totalTime (fcfs localeCompare ps)
           = Max (completion ` set (results (fcfs localeCompare ps)))"
proof -
  let ?procs = "array_sort (compareFn localeCompare) ps"
  let ?us = "spec_timeline 0 ?procs"
  let ?bs = "compress ?us 0 0"
  from assms have pos: "list_all (\<lambda>p. 0 < burst p) ?procs" and ne: "?procs \<noteq> []"
    by (simp_all add: well_formed_def set_array_sort array_sort_Nil_iff list_all_iff)
  from pos have nonneg: "list_all (\<lambda>p. 0 \<le> burst p) ?procs"
    by (auto simp: list_all_iff intro: less_imp_le)
  have len: "int (length ?us) = spec_clock 0 ?procs"
    using length_spec_timeline [OF nonneg, of 0] by simp
  with spec_clock_pos [OF pos ne, of 0] have us: "?us \<noteq> []" by auto
  note cp = compress_props [OF us, of 0 0]
  from cp have bs: "?bs \<noteq> []" by simp
  from cp bs have hd0: "start (?bs ! 0) = 0" by (simp add: hd_conv_nth)
  from cp have chain: "successively (\<lambda>a b. endTime a = start b) ?bs" by simp
  have "total_of (markers_of ?bs) = Max (set (markers_of ?bs))"
    using bs by (simp add: total_of_eq)
  also have "set (markers_of ?bs) = start ` set ?bs \<union> endTime ` set ?bs"
    by (simp add: markers_of_eq)
  finally have total: "totalTime (fcfs localeCompare ps) = int (length ?us)"
    by (simp add: totalTime_fcfs ganttBlocks_fcfs Max_markers [OF us])
  have sum: "sum_list (map (\<lambda>b. endTime b - start b) ?bs) = int (length ?us)"
    using sum_durations [OF chain bs] cp by simp
  have mx: "Max (completion ` set (results (fcfs localeCompare ps))) = spec_clock 0 ?procs"
    by (simp add: results_fcfs Max_completion [OF nonneg ne])
  from bs hd0 successively_nth [OF chain] total sum mx len show ?thesis
    by (simp add: ganttBlocks_fcfs)
qed

text \<open>One process arriving at time 2: an idle block, its block, total time 5.\<close>

theorem fcfs_timeline_covers_witness:
  "well_formed [\<lparr>pid = ''P1'', arrival = 2, burst = 3\<rparr>]
   \<and> ganttBlocks (fcfs code_unit_compare [\<lparr>pid = ''P1'', arrival = 2, burst = 3\<rparr>])
       = [\<lparr>process = ''IDLE'', start = 0, endTime = 2\<rparr>, \<lparr>process = ''P1'', start = 2, endTime = 5\<rparr>]
   \<and> sum_list (map (\<lambda>b. endTime b - start b)
        (ganttBlocks (fcfs code_unit_compare [\<lparr>pid = ''P1'', arrival = 2, burst = 3\<rparr>])))
       = totalTime (fcfs code_unit_compare [\<lparr>pid = ''P1'', arrival = 2, burst = 3\<rparr>])
   \<and> totalTime (fcfs code_unit_compare [\<lparr>pid = ''P1'', arrival = 2, burst = 3\<rparr>])
       = Max (completion ` set (results (fcfs code_unit_compare [\<lparr>pid = ''P1'', arrival = 2, burst = 3\<rparr>])))
   \<and> totalTime (fcfs code_unit_compare [\<lparr>pid = ''P1'', arrival = 2, burst = 3\<rparr>]) = 5"
proof -
  have wf: "well_formed [\<lparr>pid = ''P1'', arrival = 2, burst = 3\<rparr>]"
    by (simp add: well_formed_def)
  have bs: "ganttBlocks (fcfs code_unit_compare [\<lparr>pid = ''P1'', arrival = 2, burst = 3\<rparr>])
       = [\<lparr>process = ''IDLE'', start = 0, endTime = 2\<rparr>, \<lparr>process = ''P1'', start = 2, endTime = 5\<rparr>]"
    by code_simp
  have tt: "totalTime (fcfs code_unit_compare [\<lparr>pid = ''P1'', arrival = 2, burst = 3\<rparr>]) = 5"
    by code_simp
  from fcfs_timeline_covers [OF wf, of code_unit_compare] wf bs tt show ?thesis
    by blast
qed

section \<open>Determinism and the input array\<close>

text \<open>
  The object returned by the call on the heap is the value of \<open>fcfs\<close> on the contents of
  the input array, and the call only appends an array to the heap.
\<close>

lemma fcfs_heap_output:
  "r < length h \<Longrightarrow> fst (fcfs_heap lc h r) = fcfs lc (h ! r)"
  by (simp add: fcfs_heap_def array_map_copy_def array_sort_in_place_def fcfs_def nth_append)

lemma fcfs_heap_frame:
  "take (length h) (snd (fcfs_heap lc h r)) = h"
  by (simp add: fcfs_heap_def array_map_copy_def array_sort_in_place_def)

lemma length_fcfs_heap: "length (snd (fcfs_heap lc h r)) = Suc (length h)"
  by (simp add: fcfs_heap_def array_map_copy_def array_sort_in_place_def)

text \<open>
  C9. \<^verbatim>\<open>fcfs\<close> is deterministic and free of side effects: under one collation, two
  calls on arrays with the same contents, in any two heaps, return the same object; a call
  leaves every array that existed before it as it was, its input among them, since it sorts
  a copy; and a second call on the same array after the first returns the same object again.
\<close>

theorem fcfs_deterministic_pure:
  assumes "r < length h" and "r' < length h'" and "h ! r = h' ! r'"
  shows "fst (fcfs_heap localeCompare h r) = fst (fcfs_heap localeCompare h' r')
       \<and> take (length h) (snd (fcfs_heap localeCompare h r)) = h
       \<and> snd (fcfs_heap localeCompare h r) ! r = h ! r
       \<and> fst (fcfs_heap localeCompare (snd (fcfs_heap localeCompare h r)) r)
           = fst (fcfs_heap localeCompare h r)"
proof -
  let ?h1 = "snd (fcfs_heap localeCompare h r)"
  have same: "?h1 ! r = h ! r"
    using assms(1) fcfs_heap_frame [of h localeCompare r] by (metis nth_take)
  have r1: "r < length ?h1"
    using assms(1) by (simp add: length_fcfs_heap)
  show ?thesis
    using assms by (simp add: fcfs_heap_output r1 same fcfs_heap_frame)
qed

text \<open>The same two processes in two heaps; after the call the input is still unsorted.\<close>

theorem fcfs_deterministic_pure_witness:
  "(0::nat) < length [[\<lparr>pid = ''P2'', arrival = 0, burst = 2\<rparr>, \<lparr>pid = ''P1'', arrival = 0, burst = 3\<rparr>]]
   \<and> (1::nat) < length [[], [\<lparr>pid = ''P2'', arrival = 0, burst = 2\<rparr>, \<lparr>pid = ''P1'', arrival = 0, burst = 3\<rparr>]]
   \<and> fst (fcfs_heap code_unit_compare
        [[\<lparr>pid = ''P2'', arrival = 0, burst = 2\<rparr>, \<lparr>pid = ''P1'', arrival = 0, burst = 3\<rparr>]] 0)
     = fst (fcfs_heap code_unit_compare
        [[], [\<lparr>pid = ''P2'', arrival = 0, burst = 2\<rparr>, \<lparr>pid = ''P1'', arrival = 0, burst = 3\<rparr>]] 1)
   \<and> snd (fcfs_heap code_unit_compare
        [[\<lparr>pid = ''P2'', arrival = 0, burst = 2\<rparr>, \<lparr>pid = ''P1'', arrival = 0, burst = 3\<rparr>]] 0)
     = [[\<lparr>pid = ''P2'', arrival = 0, burst = 2\<rparr>, \<lparr>pid = ''P1'', arrival = 0, burst = 3\<rparr>],
        [\<lparr>pid = ''P1'', arrival = 0, burst = 3\<rparr>, \<lparr>pid = ''P2'', arrival = 0, burst = 2\<rparr>]]"
proof -
  let ?a = "[\<lparr>pid = ''P2'', arrival = 0, burst = 2\<rparr>, \<lparr>pid = ''P1'', arrival = 0, burst = 3\<rparr>]"
  have a: "(0::nat) < length [?a]" by simp
  have b: "(1::nat) < length [[], ?a]" by simp
  have c: "[?a] ! 0 = [[], ?a] ! 1" by simp
  have d: "snd (fcfs_heap code_unit_compare [?a] 0)
     = [?a, [\<lparr>pid = ''P1'', arrival = 0, burst = 3\<rparr>, \<lparr>pid = ''P2'', arrival = 0, burst = 2\<rparr>]]"
    by code_simp
  from fcfs_deterministic_pure [OF a b c, of code_unit_compare] a b d show ?thesis
    by blast
qed


section \<open>One block per process\<close>

text \<open>
  C7 as stated fails. The idle marker is the string \<^verbatim>\<open>"IDLE"\<close>, in the same space as the
  identifiers: a process named \<^verbatim>\<open>IDLE\<close> runs at time 0, and the idle gap from 2 to 5 is a
  second block that carries its identifier.
\<close>

theorem one_block_counterexample:
  "well_formed [\<lparr>pid = ''IDLE'', arrival = 0, burst = 1\<rparr>, \<lparr>pid = ''A'', arrival = 1, burst = 1\<rparr>,
      \<lparr>pid = ''B'', arrival = 5, burst = 1\<rparr>]
   \<and> distinct (map pid [\<lparr>pid = ''IDLE'', arrival = 0, burst = 1\<rparr>, \<lparr>pid = ''A'', arrival = 1, burst = 1\<rparr>,
      \<lparr>pid = ''B'', arrival = 5, burst = 1\<rparr>])
   \<and> length (filter (\<lambda>b. process b = ''IDLE'')
        (ganttBlocks (fcfs code_unit_compare
          [\<lparr>pid = ''IDLE'', arrival = 0, burst = 1\<rparr>, \<lparr>pid = ''A'', arrival = 1, burst = 1\<rparr>,
           \<lparr>pid = ''B'', arrival = 5, burst = 1\<rparr>]))) = 2"
  by code_simp

text \<open>
  With positive bursts, distinct identifiers and none of them the idle marker, the labels of
  the blocks are the labels of the intervals of the schedule: one per idle gap, one per
  process.
\<close>

lemma remdups_adj_replicate_append:
  "0 < n \<Longrightarrow> ys = [] \<or> hd ys \<noteq> a \<Longrightarrow> remdups_adj (replicate n a @ ys) = a # remdups_adj ys"
proof (induction n)
  case 0
  then show ?case by simp
next
  case (Suc n)
  show ?case
  proof (cases n)
    case 0
    with Suc.prems show ?thesis by (cases ys) auto
  next
    case (Suc m)
    with Suc.IH Suc.prems show ?thesis by simp
  qed
qed

lemma hd_spec_timeline:
  "0 < burst q \<Longrightarrow>
   spec_timeline c (q # qs) \<noteq> [] \<and>
   hd (spec_timeline c (q # qs)) = (if c < arrival q then ''IDLE'' else pid q)"
  by (cases "nat (arrival q - c)"; cases "nat (burst q)") auto

lemma remdups_adj_spec_timeline:
  "list_all (\<lambda>p. 0 < burst p) ps \<Longrightarrow> distinct (map pid ps) \<Longrightarrow>
   ''IDLE'' \<notin> set (map pid ps) \<Longrightarrow>
   remdups_adj (spec_timeline clock ps) = run_labels clock ps"
proof (induction ps arbitrary: clock)
  case Nil
  then show ?case by simp
next
  case (Cons p ps)
  let ?c = "max clock (arrival p) + burst p"
  let ?rest = "spec_timeline ?c ps"
  from Cons.prems have IH: "remdups_adj ?rest = run_labels ?c ps"
    by (intro Cons.IH) simp_all
  have hd_rest: "?rest = [] \<or> hd ?rest \<noteq> pid p"
  proof (cases ps)
    case Nil
    then show ?thesis by simp
  next
    case (Cons q qs)
    with Cons.prems have "0 < burst q" "pid q \<noteq> pid p" "''IDLE'' \<noteq> pid p" by auto
    with hd_spec_timeline [of q ?c qs] Cons show ?thesis by auto
  qed
  from Cons.prems have b: "0 < nat (burst p)" by simp
  have run: "remdups_adj (replicate (nat (burst p)) (pid p) @ ?rest) = pid p # run_labels ?c ps"
    using remdups_adj_replicate_append [OF b hd_rest] IH by simp
  show ?case
  proof (cases "clock < arrival p")
    case True
    then have g: "0 < nat (arrival p - clock)" by simp
    from b Cons.prems have "hd (replicate (nat (burst p)) (pid p) @ ?rest) \<noteq> ''IDLE''"
      by (cases "nat (burst p)") auto
    then have "remdups_adj (replicate (nat (arrival p - clock)) ''IDLE'' @
                 (replicate (nat (burst p)) (pid p) @ ?rest))
               = ''IDLE'' # remdups_adj (replicate (nat (burst p)) (pid p) @ ?rest)"
      by (intro remdups_adj_replicate_append [OF g]) simp
    with True run show ?thesis by simp
  next
    case False
    with run show ?thesis by simp
  qed
qed

lemma filter_run_labels:
  "x \<noteq> ''IDLE'' \<Longrightarrow>
   filter (\<lambda>l. l = x) (run_labels clock ps) = filter (\<lambda>l. l = x) (map pid ps)"
  by (induction ps arbitrary: clock) auto

lemma distinct_filter_eq:
  "distinct xs \<Longrightarrow> x \<in> set xs \<Longrightarrow> length (filter (\<lambda>l. l = x) xs) = 1"
  by (induction xs) (auto simp: filter_empty_conv)

text \<open>
  C7, amended. For every non-empty well-formed input whose identifiers are pairwise distinct
  and none of which is the idle marker \<^verbatim>\<open>"IDLE"\<close>, for each input process exactly one
  block returned by \<^verbatim>\<open>fcfs\<close> carries its identifier.
\<close>

theorem one_block_per_process:
  assumes "well_formed ps" and "distinct (map pid ps)" and "''IDLE'' \<notin> set (map pid ps)"
    and "p \<in> set ps"
  shows "length (filter (\<lambda>b. process b = pid p) (ganttBlocks (fcfs localeCompare ps))) = 1"
proof -
  let ?procs = "array_sort (compareFn localeCompare) ps"
  have m: "mset (map pid ?procs) = mset (map pid ps)"
    by (simp add: mset_array_sort)
  then have s: "set (map pid ?procs) = set (map pid ps)"
    by (rule mset_eq_setD)
  from m assms(2) have d: "distinct (map pid ?procs)"
    by (metis mset_eq_imp_distinct_iff)
  from assms(1) have pos: "list_all (\<lambda>p. 0 < burst p) ?procs"
    by (simp add: well_formed_def set_array_sort list_all_iff)
  from assms(3) s have i: "''IDLE'' \<notin> set (map pid ?procs)" by simp
  from assms(4) have "pid p \<in> set (map pid ps)" by simp
  with s have mem: "pid p \<in> set (map pid ?procs)" by simp
  from mem i have ne: "pid p \<noteq> ''IDLE''" by metis
  have "length (filter (\<lambda>b. process b = pid p) (ganttBlocks (fcfs localeCompare ps)))
      = length (filter (\<lambda>l. l = pid p) (map process (ganttBlocks (fcfs localeCompare ps))))"
    by (simp add: filter_map comp_def)
  also have "\<dots> = length (filter (\<lambda>l. l = pid p) (run_labels 0 ?procs))"
    by (simp only: ganttBlocks_fcfs map_process_compress remdups_adj_spec_timeline [OF pos d i])
  also have "\<dots> = length (filter (\<lambda>l. l = pid p) (map pid ?procs))"
    by (simp only: filter_run_labels [OF ne])
  also have "\<dots> = 1"
    using d mem by (rule distinct_filter_eq)
  finally show ?thesis .
qed

text \<open>Two processes back to back: one block carries \<^verbatim>\<open>P2\<close>.\<close>

theorem one_block_per_process_witness:
  "well_formed [\<lparr>pid = ''P1'', arrival = 0, burst = 4\<rparr>, \<lparr>pid = ''P2'', arrival = 2, burst = 2\<rparr>]
   \<and> distinct (map pid [\<lparr>pid = ''P1'', arrival = 0, burst = 4\<rparr>, \<lparr>pid = ''P2'', arrival = 2, burst = 2\<rparr>])
   \<and> ''IDLE'' \<notin> set (map pid [\<lparr>pid = ''P1'', arrival = 0, burst = 4\<rparr>, \<lparr>pid = ''P2'', arrival = 2, burst = 2\<rparr>])
   \<and> \<lparr>pid = ''P2'', arrival = 2, burst = 2\<rparr>
        \<in> set [\<lparr>pid = ''P1'', arrival = 0, burst = 4\<rparr>, \<lparr>pid = ''P2'', arrival = 2, burst = 2\<rparr>]
   \<and> length (filter (\<lambda>b. process b = pid \<lparr>pid = ''P2'', arrival = 2, burst = 2\<rparr>)
        (ganttBlocks (fcfs code_unit_compare
          [\<lparr>pid = ''P1'', arrival = 0, burst = 4\<rparr>, \<lparr>pid = ''P2'', arrival = 2, burst = 2\<rparr>]))) = 1"
proof -
  let ?ps = "[\<lparr>pid = ''P1'', arrival = 0, burst = 4\<rparr>, \<lparr>pid = ''P2'', arrival = 2, burst = 2\<rparr>]"
  have a: "well_formed ?ps" by (simp add: well_formed_def)
  have b: "distinct (map pid ?ps)" by simp
  have c: "''IDLE'' \<notin> set (map pid ?ps)" by simp
  have d: "\<lparr>pid = ''P2'', arrival = 2, burst = 2\<rparr> \<in> set ?ps" by simp
  from one_block_per_process [OF a b c d, of code_unit_compare] a b c d show ?thesis
    by blast
qed


section \<open>Empty input\<close>

text \<open>
  C10. On the empty array \<^verbatim>\<open>fcfs\<close> has no failing step: it returns the object with no
  results, no blocks, no markers and total time 0, whatever the collation is.
\<close>

theorem fcfs_empty:
  "fcfs localeCompare [] =
     \<lparr>ganttBlocks = [], timeMarkers = [], totalTime = 0, results = []\<rparr>"
  by (simp add: fcfs_def schedule_sorted_def array_sort_def simulate_def markers_of_def
      new_Set_def total_of_def compress_loop_eq)

end
